theory Spec2Isabelle
  imports Main "HOL-Library.Word"
begin

section \<open>Data model\<close>

text \<open>
  Go's \<open>int64\<close> is a 64-bit word: \<open>+\<close> and \<open>-\<close> wrap around, comparisons are
  the signed ones (\<open><s\<close>, \<open>\<le>s\<close>), \<open>sint\<close> reads the value.
  \<open>time.Time\<close> is an instant on the integer time line and \<open>time.Duration\<close> a
  difference of instants; \<open>t.After(u)\<close> is \<open>u < t\<close> and \<open>t.Add(-d)\<close> is \<open>t - d\<close>.
\<close>

type_synonym int64 = "64 word"
type_synonym instant = int
type_synonym duration = int

text \<open>
  Modelled from the spec: the declaration of \<open>reflex.Event\<close> is not among the sources.
  The record has the fields the spec lists; \<open>IDInt\<close> is the 64-bit id that the method
  \<open>IDInt()\<close> of the source returns.
\<close>

record Event =
  IDInt :: int64
  Type :: int
  ForeignID :: string
  Timestamp :: instant
  MetaData :: string

text \<open>
  Errors as values. \<open>ErrNew m\<close> is \<open>errors.New(m)\<close>, also used for the errors of the
  collaborators (database, context); \<open>Wrap e m\<close> is \<open>errors.Wrap(e, m)\<close>.
\<close>

datatype err =
    ErrConsecEvent
  | ErrNextCursorMismatch
  | ErrInvalidIntID
  | ErrNew string
  | Wrap err string

text \<open>A call either returns or ends in a run-time panic (slice bounds, index, nil call).\<close>

datatype 'a exec = Panic | Ret 'a

text \<open>
  A loader returns \<open>(events, nextCursor, error)\<close>. It works on a world \<open>'w\<close> (the
  database and whatever else it touches), passed in and returned.
\<close>

type_synonym load_result = "Event list \<times> int64 \<times> err option"
type_synonym 'w Loader = "'w \<Rightarrow> int64 \<Rightarrow> duration \<Rightarrow> ('w \<times> load_result) exec"

section \<open>The read-through cache (rcache)\<close>

text \<open>
  The struct without its lock: calls are taken one at a time, as the lock serialises
  them. The Prometheus counters are left out. \<open>limit\<close> is only ever set from
  \<open>defaultRCacheLimit\<close>; it is a natural number here.
\<close>

record 'w rcache =
  cache :: "Event list"
  name :: string
  loader :: "'w Loader"
  limit :: nat

definition defaultRCacheLimit :: nat where
  "defaultRCacheLimit = 10000"

definition newRCache :: "'w Loader \<Rightarrow> string \<Rightarrow> 'w rcache" where
  "newRCache ld nm = \<lparr>cache = [], name = nm, loader = ld, limit = defaultRCacheLimit\<rparr>"

definition lenUnsafe :: "'w rcache \<Rightarrow> nat" where
  "lenUnsafe c = length (cache c)"

definition emptyUnsafe :: "'w rcache \<Rightarrow> bool" where
  "emptyUnsafe c = (lenUnsafe c = 0)"

definition headUnsafe :: "'w rcache \<Rightarrow> int64" where
  "headUnsafe c = (if emptyUnsafe c then 0 else IDInt (cache c ! 0))"

definition tailUnsafe :: "'w rcache \<Rightarrow> int64" where
  "tailUnsafe c = (if emptyUnsafe c then 0 else IDInt (cache c ! (length (cache c) - 1)))"

definition getLastID :: "Event list \<Rightarrow> int64" where
  "getLastID el = (if length el = 0 then 0 else IDInt (el ! (length el - 1)))"

text \<open>
  The loop of \<open>maybeHitUnsafe\<close>: from index \<open>i\<close> on, append the cached events to
  \<open>res\<close> and stop at the first one whose timestamp is after the cut-off.
\<close>

function hit_loop :: "Event list \<Rightarrow> instant \<Rightarrow> nat \<Rightarrow> Event list \<Rightarrow> Event list" where
  "hit_loop cs cutOff i res =
     (if i < length cs
      then (if cutOff < Timestamp (cs ! i) then res
            else hit_loop cs cutOff (i + 1) (res @ [cs ! i]))
      else res)"
  by pat_completeness auto
termination
  by (relation "measure (\<lambda>(cs, cutOff, i, res). length cs - i)") auto

declare hit_loop.simps [simp del]

text \<open>
  \<open>maybeHitUnsafe\<close>. \<open>offset\<close> is \<open>int(from - head)\<close>, a signed 64-bit value (\<open>int\<close>
  has 64 bits on the platforms the service runs on). The slice
  expression \<open>c.cache[offset:]\<close> panics unless \<open>0 \<le> offset \<le> len\<close>; the loop indexes
  \<open>c.cache[offset]\<close> first, which panics when \<open>offset\<close> is negative. \<open>now\<close> is the
  reading of \<open>time.Now()\<close>.
\<close>

definition maybeHitUnsafe ::
  "'w rcache \<Rightarrow> int64 \<Rightarrow> duration \<Rightarrow> instant \<Rightarrow> (Event list \<times> bool) exec" where
  "maybeHitUnsafe c from lag now =
     (if from <s headUnsafe c \<or> tailUnsafe c <s from then Ret ([], False)
      else
        let offset = sint (from - headUnsafe c) in
        if lag = 0 then
          (if offset < 0 \<or> int (lenUnsafe c) < offset then Panic
           else Ret (drop (nat offset) (cache c), True))
        else
          let cutOff = now - lag in
          if offset < 0 then Panic
          else Ret (hit_loop (cache c) cutOff (nat offset) [], True))"

definition maybeHit ::
  "'w rcache \<Rightarrow> int64 \<Rightarrow> duration \<Rightarrow> instant \<Rightarrow> (Event list \<times> bool) exec" where
  "maybeHit c from lag now = maybeHitUnsafe c from lag now"

text \<open>The sanity loop of \<open>readThrough\<close>: \<open>True\<close> when no pair of neighbours fails.\<close>

function sanity_loop :: "Event list \<Rightarrow> nat \<Rightarrow> bool" where
  "sanity_loop res i =
     (if i < length res
      then (if IDInt (res ! i) \<noteq> IDInt (res ! (i - 1)) + 1 then False
            else sanity_loop res (i + 1))
      else True)"
  by pat_completeness auto
termination
  by (relation "measure (\<lambda>(res, i). length res - i)") auto

declare sanity_loop.simps [simp del]

definition maybeUpdateUnsafe :: "'w rcache \<Rightarrow> Event list \<Rightarrow> 'w rcache" where
  "maybeUpdateUnsafe c el =
     (if length el = 0 then c
      else
        let next = IDInt (el ! 0) in
        if emptyUnsafe c then c\<lparr>cache := el\<rparr>
        else if tailUnsafe c + 1 <s next then c\<lparr>cache := el\<rparr>
        else if tailUnsafe c + 1 = next then c\<lparr>cache := cache c @ el\<rparr>
        else c)"

definition maybeTrimUnsafe :: "'w rcache \<Rightarrow> 'w rcache" where
  "maybeTrimUnsafe c =
     (if limit c < lenUnsafe c
      then (let offset = lenUnsafe c - limit c in c\<lparr>cache := drop offset (cache c)\<rparr>)
      else c)"

text \<open>
  \<open>readThrough\<close> returns the cache, the world the loader left, and the result. The
  recheck reads the clock again; here both readings are \<open>now\<close>.
\<close>

definition readThrough ::
  "'w rcache \<Rightarrow> 'w \<Rightarrow> int64 \<Rightarrow> duration \<Rightarrow> instant \<Rightarrow> ('w rcache \<times> 'w \<times> load_result) exec" where
  "readThrough c w after lag now =
     (case maybeHitUnsafe c (after + 1) lag now of
        Panic \<Rightarrow> Panic
      | Ret (res, ok) \<Rightarrow>
          if ok then Ret (c, w, (res, getLastID res, None))
          else
            (case loader c w after lag of
               Panic \<Rightarrow> Panic
             | Ret (w', (res, next, e)) \<Rightarrow>
                 (case e of
                    Some x \<Rightarrow> Ret (c, w', ([], 0, Some x))
                  | None \<Rightarrow>
                      if length res = 0 then Ret (c, w', ([], after, None))
                      else if \<not> sanity_loop res 1 then Ret (c, w', ([], 0, Some ErrConsecEvent))
                      else if next \<noteq> IDInt (res ! (length res - 1))
                        then Ret (c, w', ([], 0, Some (Wrap ErrNextCursorMismatch [])))
                      else Ret (maybeTrimUnsafe (maybeUpdateUnsafe c res), w', (res, next, None)))))"

definition Load ::
  "'w rcache \<Rightarrow> 'w \<Rightarrow> int64 \<Rightarrow> duration \<Rightarrow> instant \<Rightarrow> ('w rcache \<times> 'w \<times> load_result) exec" where
  "Load c w after lag now =
     (case maybeHit c (after + 1) lag now of
        Panic \<Rightarrow> Panic
      | Ret (res, ok) \<Rightarrow>
          if ok then Ret (c, w, (res, getLastID res, None))
          else readThrough c w after lag now)"

text \<open>
  The invariant of the cached slice: neighbours have consecutive ids (with the
  wrap-around of \<open>int64\<close>, as the checks of the source compute it).
\<close>

fun consecutive :: "Event list \<Rightarrow> bool" where
  "consecutive (a # b # xs) = (IDInt b = IDInt a + 1 \<and> consecutive (b # xs))"
| "consecutive _ = True"

text \<open>A sequence of \<open>Load\<close> calls \<open>(after, lag, now)\<close> on one cache, one after the other.\<close>

fun run_loads ::
  "'w rcache \<Rightarrow> 'w \<Rightarrow> (int64 \<times> duration \<times> instant) list \<Rightarrow> ('w rcache \<times> 'w) exec" where
  "run_loads c w [] = Ret (c, w)"
| "run_loads c w ((after, lag, now) # calls) =
     (case Load c w after lag now of
        Panic \<Rightarrow> Panic
      | Ret (c', w', r) \<Rightarrow> run_loads c' w' calls)"

section \<open>Integers as text: \<open>strconv.ParseInt\<close>, \<open>%d\<close>, \<open>strings.Split\<close>\<close>

text \<open>
  Go's \<open>strconv.ParseInt(s, 10, 64)\<close> returns a value and an error: a syntax error
  (empty text, a character that is not a decimal digit) or a range error. \<open>uint64\<close>
  accumulators are natural numbers here, with the overflow checks of the library
  written out.
\<close>

datatype NumError = ErrSyntax | ErrRange

definition maxUint64 :: nat where
  "maxUint64 = 18446744073709551615"

definition is_digit :: "char \<Rightarrow> bool" where
  "is_digit c = (48 \<le> (of_char c :: nat) \<and> (of_char c :: nat) \<le> 57)"

definition digit_val :: "char \<Rightarrow> nat" where
  "digit_val c = of_char c - 48"

fun ParseUint_loop :: "nat \<Rightarrow> string \<Rightarrow> nat \<times> NumError option" where
  "ParseUint_loop n [] = (n, None)"
| "ParseUint_loop n (c # cs) =
     (if \<not> is_digit c then (0, Some ErrSyntax)
      else if maxUint64 div 10 + 1 \<le> n then (maxUint64, Some ErrRange)
      else
        let n1 = n * 10 + digit_val c in
        if maxUint64 < n1 then (maxUint64, Some ErrRange)
        else ParseUint_loop n1 cs)"

definition ParseUint :: "string \<Rightarrow> nat \<times> NumError option" where
  "ParseUint s = (if s = [] then (0, Some ErrSyntax) else ParseUint_loop 0 s)"

definition ParseInt :: "string \<Rightarrow> int64 \<times> NumError option" where
  "ParseInt s =
     (if s = [] then (0, Some ErrSyntax)
      else
        let neg = (hd s = CHR ''-'');
            s1 = (if hd s = CHR ''+'' \<or> hd s = CHR ''-'' then tl s else s);
            (un, e) = ParseUint s1
        in
          if e = Some ErrSyntax then (0, Some ErrSyntax)
          else
            let cutoff = (2 :: nat) ^ 63 in
            if \<not> neg \<and> cutoff \<le> un then (word_of_nat (cutoff - 1), Some ErrRange)
            else if neg \<and> cutoff < un then (- word_of_nat cutoff, Some ErrRange)
            else (if neg then - word_of_nat un else word_of_nat un, None))"

text \<open>The verb \<open>%d\<close> of \<open>fmt.Sprintf\<close> on an \<open>int64\<close>: decimal, \<open>-\<close> when negative.\<close>

definition digit_char :: "nat \<Rightarrow> char" where
  "digit_char d = char_of (48 + d)"

function dec_nat :: "nat \<Rightarrow> string" where
  "dec_nat n = (if n < 10 then [digit_char n] else dec_nat (n div 10) @ [digit_char (n mod 10)])"
  by pat_completeness auto
termination
  by (relation "measure id") auto

declare dec_nat.simps [simp del]

definition FormatInt :: "int64 \<Rightarrow> string" where
  "FormatInt i =
     (if sint i < 0 then CHR ''-'' # dec_nat (nat (- sint i)) else dec_nat (nat (sint i)))"

text \<open>\<open>strings.Split(s, sep)\<close> for a separator of one byte.\<close>

fun Split :: "string \<Rightarrow> char \<Rightarrow> string list" where
  "Split [] sep = [[]]"
| "Split (c # cs) sep =
     (if c = sep then [] # Split cs sep
      else (let ps = Split cs sep in (c # hd ps) # tl ps))"

section \<open>The cursor of the blob stream (rblob)\<close>

record cursor =
  Key :: string
  Offset :: int64
  Last :: bool

definition String :: "cursor \<Rightarrow> string" where
  "String c =
     (let res = Key c @ ''|'' @ FormatInt (Offset c) in
      if Last c then res @ ''|last'' else res)"

definition parseCursor :: "string \<Rightarrow> err + cursor" where
  "parseCursor cur =
     (if cur = [] then Inr \<lparr>Key = [], Offset = 0, Last = False\<rparr>
      else
        let split = Split cur CHR ''|'' in
        if length split < 2 \<or> 3 < length split then Inl (ErrNew ''invalid cursor'')
        else
          (case ParseInt (split ! 1) of
             (i, Some e) \<Rightarrow> Inl (ErrNew ''invalid cursor offset'')
           | (i, None) \<Rightarrow>
               if length split = 3 then
                 (if split ! 2 \<noteq> ''last'' then Inl (ErrNew ''invalid cursor end'')
                  else Inr \<lparr>Key = split ! 0, Offset = i, Last = True\<rparr>)
               else Inr \<lparr>Key = split ! 0, Offset = i, Last = False\<rparr>))"

section \<open>The in-memory notifier\<close>

text \<open>
  A channel of \<open>struct{}\<close> values: its capacity, the number of values in its buffer
  and the number of goroutines blocked receiving from it. Channels live in a heap (a
  list); a channel value is its index there.
\<close>

record chan =
  cap :: nat
  queued :: nat
  receivers :: nat

type_synonym heap = "chan list"

text \<open>A statement either runs to its end or stays blocked.\<close>

datatype 'a step = Blocks | Done 'a

text \<open>
  Whether a send can proceed now, and the channel after it: a blocked receiver takes
  the value, else the buffer does if it has room. \<open>None\<close>: the send is not ready.
\<close>

definition chan_send :: "chan \<Rightarrow> chan option" where
  "chan_send ch =
     (if 0 < receivers ch then Some (ch\<lparr>receivers := receivers ch - 1\<rparr>)
      else if queued ch < cap ch then Some (ch\<lparr>queued := queued ch + 1\<rparr>)
      else None)"

text \<open>The plain send statement \<open>l <- struct{}{}\<close>; a channel not in the heap is \<open>nil\<close>.\<close>

definition send :: "heap \<Rightarrow> nat \<Rightarrow> heap step" where
  "send h l =
     (if l < length h
      then (case chan_send (h ! l) of Some ch \<Rightarrow> Done (h[l := ch]) | None \<Rightarrow> Blocks)
      else Blocks)"

text \<open>\<open>select { case l <- struct{}{}: default: }\<close>: the send if it is ready, else nothing.\<close>

definition select_send_default :: "heap \<Rightarrow> nat \<Rightarrow> heap step" where
  "select_send_default h l = (case send h l of Blocks \<Rightarrow> Done h | Done h' \<Rightarrow> Done h')"

record inmemNotifier =
  listeners :: "nat list"

fun Notify_loop :: "heap \<Rightarrow> nat list \<Rightarrow> heap step" where
  "Notify_loop h [] = Done h"
| "Notify_loop h (l # ls) =
     (case select_send_default h l of Blocks \<Rightarrow> Blocks | Done h' \<Rightarrow> Notify_loop h' ls)"

definition Notify :: "heap \<Rightarrow> inmemNotifier \<Rightarrow> (heap \<times> inmemNotifier) step" where
  "Notify h n =
     (case Notify_loop h (listeners n) of
        Blocks \<Rightarrow> Blocks
      | Done h' \<Rightarrow> Done (h', n\<lparr>listeners := []\<rparr>))"

text \<open>\<open>C()\<close>: \<open>make(chan struct{}, 1)\<close> allocates at the end of the heap.\<close>

definition C :: "heap \<Rightarrow> inmemNotifier \<Rightarrow> heap \<times> inmemNotifier \<times> nat" where
  "C h n =
     (let ch = length h;
          h' = h @ [\<lparr>cap = 1, queued = 0, receivers = 0\<rparr>]
      in (h', n\<lparr>listeners := listeners n @ [ch]\<rparr>, ch))"

section \<open>The insert path\<close>

definition isNoop :: "string \<Rightarrow> int \<Rightarrow> bool" where
  "isNoop foreignID typ = (foreignID = ''0'' \<and> typ = 0)"

definition isNoopEvent :: "Event \<Rightarrow> bool" where
  "isNoopEvent e = isNoop (ForeignID e) (Type e)"

text \<open>
  A \<open>NotifyFunc\<close> value: \<open>nil\<close>, the package's \<open>noopFunc\<close>, or the method value
  \<open>t.notifier.Notify\<close>. Calling \<open>nil\<close> panics.
\<close>

datatype NotifyFunc = nil_NotifyFunc | noopFunc | notifier_Notify

definition call_NotifyFunc :: "NotifyFunc \<Rightarrow> ('n \<Rightarrow> 'n) \<Rightarrow> 'n \<Rightarrow> 'n exec" where
  "call_NotifyFunc f notify n =
     (case f of nil_NotifyFunc \<Rightarrow> Panic | noopFunc \<Rightarrow> Ret n | notifier_Notify \<Rightarrow> Ret (notify n))"

text \<open>
  \<open>insertEvent\<close> is not among the sources: it is a parameter, a function of the
  transaction that returns the transaction after the SQL insert and an error.
\<close>

definition InsertWithMetadata ::
  "('tx \<Rightarrow> string \<Rightarrow> int \<Rightarrow> string \<Rightarrow> 'tx \<times> err option) \<Rightarrow>
   'tx \<Rightarrow> string \<Rightarrow> int \<Rightarrow> string \<Rightarrow> 'tx \<times> NotifyFunc \<times> err option" where
  "InsertWithMetadata insertEvent tx foreignID typ metadata =
     (if isNoop foreignID typ
      then (tx, nil_NotifyFunc, Some (ErrNew ''inserting invalid noop event''))
      else
        (case insertEvent tx foreignID typ metadata of
           (tx', Some e) \<Rightarrow> (tx', noopFunc, Some e)
         | (tx', None) \<Rightarrow> (tx', notifier_Notify, None)))"

definition Insert ::
  "('tx \<Rightarrow> string \<Rightarrow> int \<Rightarrow> string \<Rightarrow> 'tx \<times> err option) \<Rightarrow>
   'tx \<Rightarrow> string \<Rightarrow> int \<Rightarrow> 'tx \<times> NotifyFunc \<times> err option" where
  "Insert insertEvent tx foreignID typ = InsertWithMetadata insertEvent tx foreignID typ []"

section \<open>The layered loader\<close>

text \<open>
  Modelled from the spec: \<open>wrapNoopFilter\<close> is not among the sources. It drops the noop
  events from the batch and passes the next cursor and the error of the wrapped loader
  through.
\<close>

definition wrapNoopFilter :: "'w Loader \<Rightarrow> 'w Loader" where
  "wrapNoopFilter ld w after lag =
     (case ld w after lag of
        Panic \<Rightarrow> Panic
      | Ret (w', (el, next, e)) \<Rightarrow> Ret (w', (filter (\<lambda>x. \<not> isNoopEvent x) el, next, e)))"

text \<open>
  Modelled from the spec: \<open>wrapGapDetector\<close> is not among the sources. It passes the
  batch through; when the batch does not start at \<open>cursor + 1\<close> it reports the gap
  \<open>(cursor, first id)\<close> with \<open>emit\<close>, a send that never blocks.
\<close>

definition wrapGapDetector :: "'w Loader \<Rightarrow> (int64 \<times> int64 \<Rightarrow> 'w \<Rightarrow> 'w) \<Rightarrow> 'w Loader" where
  "wrapGapDetector ld emit w after lag =
     (case ld w after lag of
        Panic \<Rightarrow> Panic
      | Ret (w', (el, next, e)) \<Rightarrow>
          if e = None \<and> el \<noteq> [] \<and> IDInt (el ! 0) \<noteq> after + 1
          then Ret (emit (after, IDInt (el ! 0)) w', (el, next, e))
          else Ret (w', (el, next, e)))"

text \<open>
  How the loaders reach the shared state of a world: the slice of the cache, the
  clock, and the non-blocking send on the gap channel.
\<close>

record 'w world_ops =
  cache_get :: "'w \<Rightarrow> Event list"
  cache_put :: "Event list \<Rightarrow> 'w \<Rightarrow> 'w"
  time_Now :: "'w \<Rightarrow> instant"
  gap_emit :: "int64 \<times> int64 \<Rightarrow> 'w \<Rightarrow> 'w"

definition rcache_Load :: "'w world_ops \<Rightarrow> 'w rcache \<Rightarrow> 'w Loader" where
  "rcache_Load ops c w after lag =
     (case Load (c\<lparr>cache := cache_get ops w\<rparr>) w after lag (time_Now ops w) of
        Panic \<Rightarrow> Panic
      | Ret (c', w', r) \<Rightarrow> Ret (cache_put ops (cache c') w', r))"

text \<open>
  \<open>buildLoader\<close>. \<open>makeBaseLoader\<close> is not among the sources: the loader it makes for
  the schema is the parameter \<open>schemaLoader\<close>.
\<close>

definition buildLoader ::
  "'w Loader \<Rightarrow> 'w world_ops \<Rightarrow> 'w Loader option \<Rightarrow> bool \<Rightarrow> string \<Rightarrow> 'w Loader" where
  "buildLoader schemaLoader ops baseLoader enableCache schema_name =
     (let base = (case baseLoader of None \<Rightarrow> schemaLoader | Some b \<Rightarrow> b);
          ld = wrapGapDetector base (gap_emit ops);
          ld' = (if enableCache then rcache_Load ops (newRCache ld schema_name) else ld)
      in wrapNoopFilter ld')"

section \<open>The stream client\<close>

text \<open>
  The struct \<open>options\<close> with the stream options it embeds; \<open>EventsTable\<close> and
  \<open>streamclient\<close> embed it in turn (the notifier is in \<open>client_env\<close> below).
\<close>

record options =
  StreamFromHead :: bool
  Lag :: duration
  backoff :: duration

record 'w EventsTable = options +
  enableCache :: bool
  currentLoader :: "'w Loader"

text \<open>
  Modelled from the spec: the stream options of package \<open>reflex\<close> are not among the
  sources. One starts the stream from the head, one sets the lag.
\<close>

datatype StreamOption = WithStreamFromHead | WithStreamLag duration

text \<open>
  The client. Its field \<open>loader\<close> is \<open>sloader\<close> here, the cache having a field of
  that name.
\<close>

record 'w streamclient = options +
  after :: string
  prev :: int64
  buf :: "Event list"
  sloader :: "'w Loader"

text \<open>
  What a client reaches through \<open>ctx\<close>, \<open>dbc\<close> and \<open>notifier\<close>: the error of the
  context, \<open>getLatestID\<close> (not among the sources, a parameter), and the \<open>select\<close> of
  \<open>wait\<close>, which ends with \<open>nil\<close> (notified, or the timer fired) or the context's
  error.
\<close>

record 'w client_env =
  ctx_Err :: "'w \<Rightarrow> err option"
  getLatestID :: "'w \<Rightarrow> 'w \<times> int64 \<times> err option"
  wait_select :: "'w \<Rightarrow> duration \<Rightarrow> 'w \<times> err option"

definition wait :: "'w client_env \<Rightarrow> 'w \<Rightarrow> duration \<Rightarrow> 'w \<times> err option" where
  "wait env w d = (if d = 0 then (w, None) else wait_select env w d)"

text \<open>The block of \<open>Recv\<close> that initialises the cursor once.\<close>

definition init_cursor ::
  "'w client_env \<Rightarrow> 'w \<Rightarrow> 'w streamclient \<Rightarrow> 'w \<times> 'w streamclient \<times> err option" where
  "init_cursor env w s =
     (if StreamFromHead s then
        (case getLatestID env w of
           (w', i, Some e) \<Rightarrow> (w', s\<lparr>prev := i\<rparr>, Some e)
         | (w', i, None) \<Rightarrow> (w', s\<lparr>prev := i, StreamFromHead := False\<rparr>, None))
      else if after s \<noteq> [] then
        (case ParseInt (after s) of
           (i, Some e) \<Rightarrow> (w, s\<lparr>prev := i\<rparr>, Some ErrInvalidIntID)
         | (i, None) \<Rightarrow> (w, s\<lparr>prev := i, after := []\<rparr>, None))
      else (w, s, None))"

text \<open>
  The polling loop of \<open>Recv\<close>. It may run forever (no events, no cancellation): the
  fuel bounds the number of loader calls, and \<open>None\<close> is a loop still running when
  the fuel is used up.
\<close>

fun recv_loop ::
  "nat \<Rightarrow> 'w client_env \<Rightarrow> 'w \<Rightarrow> 'w streamclient \<Rightarrow> ('w \<times> 'w streamclient \<times> err option) exec option" where
  "recv_loop fuel env w s =
     (if length (buf s) \<noteq> 0 then Some (Ret (w, s, None))
      else
        (case fuel of
           0 \<Rightarrow> None
         | Suc k \<Rightarrow>
             (case sloader s w (prev s) (Lag s) of
                Panic \<Rightarrow> Some Panic
              | Ret (w1, (el, next, e)) \<Rightarrow>
                  (case e of
                     Some x \<Rightarrow> Some (Ret (w1, s, Some x))
                   | None \<Rightarrow>
                       let s1 = s\<lparr>prev := next, buf := el\<rparr> in
                       if 0 < length el then Some (Ret (w1, s1, None))
                       else
                         (case wait env w1 (backoff s1) of
                            (w2, Some x) \<Rightarrow> Some (Ret (w2, s1, Some x))
                          | (w2, None) \<Rightarrow> recv_loop k env w2 s1)))))"

definition Recv ::
  "nat \<Rightarrow> 'w client_env \<Rightarrow> 'w \<Rightarrow> 'w streamclient \<Rightarrow> ('w \<times> 'w streamclient \<times> (err + Event)) exec option" where
  "Recv fuel env w s =
     (case ctx_Err env w of
        Some x \<Rightarrow> Some (Ret (w, s, Inl x))
      | None \<Rightarrow>
          (case init_cursor env w s of
             (w0, s0, Some x) \<Rightarrow> Some (Ret (w0, s0, Inl x))
           | (w0, s0, None) \<Rightarrow>
               (case recv_loop fuel env w0 s0 of
                  None \<Rightarrow> None
                | Some Panic \<Rightarrow> Some Panic
                | Some (Ret (w1, s1, Some x)) \<Rightarrow> Some (Ret (w1, s1, Inl x))
                | Some (Ret (w1, s1, None)) \<Rightarrow>
                    let e = buf s1 ! 0 in
                    Some (Ret (w1, s1\<lparr>prev := IDInt e, buf := drop 1 (buf s1)\<rparr>, Inr e)))))"

definition apply_StreamOption :: "'w streamclient \<Rightarrow> StreamOption \<Rightarrow> 'w streamclient" where
  "apply_StreamOption s opt =
     (case opt of
        WithStreamFromHead \<Rightarrow> s\<lparr>StreamFromHead := True\<rparr>
      | WithStreamLag d \<Rightarrow> s\<lparr>Lag := d\<rparr>)"

definition Stream :: "'w EventsTable \<Rightarrow> string \<Rightarrow> StreamOption list \<Rightarrow> 'w streamclient" where
  "Stream t a opts =
     foldl apply_StreamOption
       \<lparr>StreamFromHead = StreamFromHead t, Lag = Lag t, backoff = backoff t,
        after = a, prev = 0, buf = [], sloader = currentLoader t\<rparr>
       opts"

text \<open>\<open>n\<close> calls of \<open>Recv\<close> on one client; stops at a call that does not return.\<close>

fun recv_n ::
  "nat \<Rightarrow> nat \<Rightarrow> 'w client_env \<Rightarrow> 'w \<Rightarrow> 'w streamclient \<Rightarrow> 'w \<times> 'w streamclient \<times> (err + Event) list" where
  "recv_n 0 fuel env w s = (w, s, [])"
| "recv_n (Suc n) fuel env w s =
     (case Recv fuel env w s of
        Some (Ret (w', s', r)) \<Rightarrow>
          (case recv_n n fuel env w' s' of (w'', s'', rs) \<Rightarrow> (w'', s'', r # rs))
      | _ \<Rightarrow> (w, s, []))"

section \<open>A table with five events\<close>

text \<open>An event as scenario S1 of the spec inserts it, with id \<open>i\<close> committed at \<open>t\<close>.\<close>

definition ev :: "int64 \<Rightarrow> instant \<Rightarrow> Event" where
  "ev i t = \<lparr>IDInt = i, Type = 1, ForeignID = ''x'', Timestamp = t, MetaData = []\<rparr>"

text \<open>A loader on the unit world that returns the two events after the cursor.\<close>

definition next_two :: "unit Loader" where
  "next_two w cur lag = Ret (w, ([ev (cur + 1) 0, ev (cur + 2) 0], cur + 2, None))"

text \<open>A loader that returns one fixed result.\<close>

definition fixed_loader :: "load_result \<Rightarrow> unit Loader" where
  "fixed_loader r w cur lag = Ret (w, r)"

text \<open>
  The world of the scenarios: the rows of the events table, the clock, the slice of the
  table's cache and the gaps reported so far.
\<close>

record world =
  rows :: "Event list"
  clock :: instant
  cached :: "Event list"
  gaps :: "(int64 \<times> int64) list"

text \<open>
  Modelled from the spec: \<open>makeBaseLoader\<close> is not among the sources. The base loader
  returns the rows with an id after the cursor, in ascending order, at most \<open>batch\<close>
  of them, and with a positive lag only those older than \<open>now - lag\<close>; the next cursor
  is the id of the last returned event, or the cursor when there is none.
\<close>

definition makeBaseLoader :: "nat \<Rightarrow> world Loader" where
  "makeBaseLoader batch w cur lag =
     (let el = take batch
           (filter (\<lambda>e. cur <s IDInt e \<and> (if 0 < lag then Timestamp e < clock w - lag else True))
              (rows w))
      in Ret (w, (el, if el = [] then cur else IDInt (last el), None)))"

text \<open>
  A table with the cache enabled, over events 1 to 4 committed at time 0 and event 5
  committed at time 100; the clock stands at 105. The context is never cancelled and
  \<open>wait\<close> ends when the backoff timer fires, which moves the clock on by the
  backoff. \<open>demo_world_warm\<close> is the world after a client without lag has received
  its first event.
\<close>

definition demo_ops :: "world world_ops" where
  "demo_ops = \<lparr>cache_get = cached, cache_put = (\<lambda>el w. w\<lparr>cached := el\<rparr>),
     time_Now = clock, gap_emit = (\<lambda>g w. w\<lparr>gaps := gaps w @ [g]\<rparr>)\<rparr>"

definition demo_env :: "world client_env" where
  "demo_env = \<lparr>ctx_Err = (\<lambda>w. None),
     getLatestID = (\<lambda>w. (w, getLastID (rows w), None)),
     wait_select = (\<lambda>w d. (w\<lparr>clock := clock w + d\<rparr>, None))\<rparr>"

definition demo_world :: world where
  "demo_world = \<lparr>rows = [ev 1 0, ev 2 0, ev 3 0, ev 4 0, ev 5 100], clock = 105, cached = [], gaps = []\<rparr>"

definition demo_table :: "world EventsTable" where
  "demo_table = \<lparr>StreamFromHead = False, Lag = 0, backoff = 10, enableCache = True,
     currentLoader = buildLoader (makeBaseLoader 1000) demo_ops None True ''events''\<rparr>"

definition demo_world_warm :: world where
  "demo_world_warm =
     (case Recv 1 demo_env demo_world (Stream demo_table [] []) of
        Some (Ret (w, s, r)) \<Rightarrow> w
      | _ \<Rightarrow> demo_world)"

section \<open>Lemmas about the cache\<close>

lemma consecutive_iff_nth:
  "consecutive xs \<longleftrightarrow> (\<forall>i. i + 1 < length xs \<longrightarrow> IDInt (xs ! (i + 1)) = IDInt (xs ! i) + 1)"
proof (induction xs rule: consecutive.induct)
  case (1 a b xs)
  show ?case
  proof
    assume h: "consecutive (a # b # xs)"
    show "\<forall>i. i + 1 < length (a # b # xs) \<longrightarrow> IDInt ((a # b # xs) ! (i + 1)) = IDInt ((a # b # xs) ! i) + 1"
    proof (intro allI impI)
      fix i assume "i + 1 < length (a # b # xs)"
      then show "IDInt ((a # b # xs) ! (i + 1)) = IDInt ((a # b # xs) ! i) + 1"
        using h 1 by (cases i) auto
    qed
  next
    assume h: "\<forall>i. i + 1 < length (a # b # xs) \<longrightarrow> IDInt ((a # b # xs) ! (i + 1)) = IDInt ((a # b # xs) ! i) + 1"
    have "IDInt b = IDInt a + 1" using h [rule_format, of 0] by simp
    moreover have "\<forall>i. i + 1 < length (b # xs) \<longrightarrow> IDInt ((b # xs) ! (i + 1)) = IDInt ((b # xs) ! i) + 1"
    proof (intro allI impI)
      fix i assume "i + 1 < length (b # xs)"
      then show "IDInt ((b # xs) ! (i + 1)) = IDInt ((b # xs) ! i) + 1"
        using h [rule_format, of "Suc i"] by simp
    qed
    ultimately show "consecutive (a # b # xs)" using 1 by simp
  qed
qed simp_all

lemma consecutive_append:
  "consecutive xs \<Longrightarrow> consecutive ys \<Longrightarrow> xs \<noteq> [] \<Longrightarrow> ys \<noteq> [] \<Longrightarrow>
   IDInt (ys ! 0) = IDInt (xs ! (length xs - 1)) + 1 \<Longrightarrow> consecutive (xs @ ys)"
proof (induction xs)
  case Nil
  then show ?case by simp
next
  case (Cons x xs)
  note prems = Cons.prems and IH = Cons.IH
  show ?case
  proof (cases xs)
    case Nil
    with prems show ?thesis by (cases ys) auto
  next
    case (Cons b bs)
    with prems IH show ?thesis by simp
  qed
qed

lemma consecutive_tl: "consecutive xs \<Longrightarrow> consecutive (tl xs)"
  by (induction xs rule: consecutive.induct) auto

lemma consecutive_drop: "consecutive xs \<Longrightarrow> consecutive (drop n xs)"
proof (induction n arbitrary: xs)
  case 0 then show ?case by simp
next
  case (Suc n)
  have "drop (Suc n) xs = drop n (tl xs)" by (simp add: drop_Suc)
  with Suc consecutive_tl show ?case by metis
qed

lemma sanity_loop_iff:
  "0 < i \<Longrightarrow> sanity_loop res i \<longleftrightarrow> (\<forall>j. i \<le> j \<and> j < length res \<longrightarrow> IDInt (res ! j) = IDInt (res ! (j - 1)) + 1)"
proof (induction res i rule: sanity_loop.induct)
  case (1 res i)
  show ?case
  proof (cases "i < length res")
    case False
    then show ?thesis by (auto simp: sanity_loop.simps [of res i])
  next
    case True
    show ?thesis
    proof (cases "IDInt (res ! i) = IDInt (res ! (i - 1)) + 1")
      case False
      with True show ?thesis by (auto simp: sanity_loop.simps [of res i])
    next
      case eq: True
      have "sanity_loop res i = sanity_loop res (i + 1)"
        using True eq by (simp add: sanity_loop.simps [of res i])
      also have "\<dots> = (\<forall>j. i + 1 \<le> j \<and> j < length res \<longrightarrow> IDInt (res ! j) = IDInt (res ! (j - 1)) + 1)"
        using 1 True eq by simp
      also have "\<dots> = (\<forall>j. i \<le> j \<and> j < length res \<longrightarrow> IDInt (res ! j) = IDInt (res ! (j - 1)) + 1)"
      proof
        assume a: "\<forall>j. i + 1 \<le> j \<and> j < length res \<longrightarrow> IDInt (res ! j) = IDInt (res ! (j - 1)) + 1"
        show "\<forall>j. i \<le> j \<and> j < length res \<longrightarrow> IDInt (res ! j) = IDInt (res ! (j - 1)) + 1"
        proof (intro allI impI)
          fix j assume j: "i \<le> j \<and> j < length res"
          show "IDInt (res ! j) = IDInt (res ! (j - 1)) + 1"
          proof (cases "j = i")
            case True
            with eq show ?thesis by simp
          next
            case False
            with j have "i + 1 \<le> j \<and> j < length res" by simp
            with a show ?thesis by blast
          qed
        qed
      next
        assume a: "\<forall>j. i \<le> j \<and> j < length res \<longrightarrow> IDInt (res ! j) = IDInt (res ! (j - 1)) + 1"
        show "\<forall>j. i + 1 \<le> j \<and> j < length res \<longrightarrow> IDInt (res ! j) = IDInt (res ! (j - 1)) + 1"
        proof (intro allI impI)
          fix j assume "i + 1 \<le> j \<and> j < length res"
          then have "i \<le> j \<and> j < length res" by simp
          with a show "IDInt (res ! j) = IDInt (res ! (j - 1)) + 1" by blast
        qed
      qed
      finally show ?thesis .
    qed
  qed
qed

lemma sanity_loop_consecutive: "sanity_loop res 1 = consecutive res"
proof -
  have "(\<forall>j. 1 \<le> j \<and> j < length res \<longrightarrow> IDInt (res ! j) = IDInt (res ! (j - 1)) + 1)
    \<longleftrightarrow> (\<forall>i. i + 1 < length res \<longrightarrow> IDInt (res ! (i + 1)) = IDInt (res ! i) + 1)"
    (is "?L \<longleftrightarrow> ?R")
  proof
    assume l: ?L
    show ?R
    proof (intro allI impI)
      fix i assume "i + 1 < length res"
      with l [rule_format, of "i + 1"] show "IDInt (res ! (i + 1)) = IDInt (res ! i) + 1" by simp
    qed
  next
    assume r: ?R
    show ?L
    proof (intro allI impI)
      fix j assume "1 \<le> j \<and> j < length res"
      with r [rule_format, of "j - 1"] show "IDInt (res ! j) = IDInt (res ! (j - 1)) + 1" by simp
    qed
  qed
  then show ?thesis
    using sanity_loop_iff [of 1 res] consecutive_iff_nth [of res] by simp
qed






lemma maybeUpdateUnsafe_consecutive:
  assumes "consecutive (cache c)" "consecutive el"
  shows "consecutive (cache (maybeUpdateUnsafe c el))"
proof -
  have "consecutive (cache c @ el)"
    if "cache c \<noteq> []" "el \<noteq> []" "tailUnsafe c + 1 = IDInt (el ! 0)"
    using that assms
    by (intro consecutive_append) (simp_all add: tailUnsafe_def emptyUnsafe_def lenUnsafe_def)
  then show ?thesis
    using assms by (auto simp: maybeUpdateUnsafe_def Let_def emptyUnsafe_def lenUnsafe_def)
qed

lemma maybeTrimUnsafe_consecutive:
  "consecutive (cache c) \<Longrightarrow> consecutive (cache (maybeTrimUnsafe c))"
  by (simp add: maybeTrimUnsafe_def Let_def consecutive_drop)

lemma sanity_loop_Suc0: "sanity_loop res (Suc 0) = consecutive res"
  using sanity_loop_consecutive [of res] by simp

lemma readThrough_consecutive:
  assumes "consecutive (cache c)" "readThrough c w a lag now = Ret (c', w', r)"
  shows "consecutive (cache c')"
  using assms
  by (auto simp: readThrough_def sanity_loop_Suc0
      maybeTrimUnsafe_consecutive maybeUpdateUnsafe_consecutive
      split: exec.splits prod.splits option.splits if_splits)

lemma Load_consecutive:
  assumes "consecutive (cache c)" "Load c w a lag now = Ret (c', w', r)"
  shows "consecutive (cache c')"
  using assms readThrough_consecutive [of c w a lag now c' w' r]
  by (auto simp: Load_def split: exec.splits prod.splits if_splits)

lemma run_loads_consecutive:
  "consecutive (cache c) \<Longrightarrow> run_loads c w calls = Ret (c', w') \<Longrightarrow> consecutive (cache c')"
proof (induction calls arbitrary: c w)
  case Nil
  then show ?case by simp
next
  case (Cons x calls)
  obtain a lag now where x: "x = (a, lag, now)" by (cases x)
  from Cons.prems(2) obtain c1 w1 r1 where
    l: "Load c w a lag now = Ret (c1, w1, r1)" and rest: "run_loads c1 w1 calls = Ret (c', w')"
    by (auto simp: x split: exec.splits)
  from Load_consecutive [OF Cons.prems(1) l] rest Cons.IH show ?case by blast
qed

lemma readThrough_checks:
  assumes miss: "maybeHitUnsafe c (a + 1) lag now = Ret (r0, False)"
    and ld: "loader c w a lag = Ret (w', (res, next, None))"
    and ne: "res \<noteq> []"
  shows "readThrough c w a lag now =
     (if \<not> consecutive res then Ret (c, w', ([], 0, Some ErrConsecEvent))
      else if next \<noteq> IDInt (last res) then Ret (c, w', ([], 0, Some (Wrap ErrNextCursorMismatch [])))
      else Ret (maybeTrimUnsafe (maybeUpdateUnsafe c res), w', (res, next, None)))"
  using assms by (simp add: readThrough_def sanity_loop_Suc0 last_conv_nth)

text \<open>
  The path that reads through answers an empty batch with the cursor it was given.
\<close>

lemma readThrough_empty_batch_keeps_cursor:
  assumes "maybeHitUnsafe c (a + 1) lag now = Ret (r0, False)"
    and "loader c w a lag = Ret (w', ([], next, None))"
  shows "readThrough c w a lag now = Ret (c, w', ([], a, None))"
  using assms by (simp add: readThrough_def)


lemmas cache_eval =
  Load_def maybeHit_def maybeHitUnsafe_def headUnsafe_def tailUnsafe_def emptyUnsafe_def
  lenUnsafe_def getLastID_def readThrough_def sanity_loop.simps hit_loop.simps
  maybeUpdateUnsafe_def maybeTrimUnsafe_def newRCache_def ev_def word_sless_alt word_sle_eq

section \<open>Claims about the read-through cache\<close>

text \<open>
  C1. The claim: whenever \<open>Load\<close> returns no error and no events, the next cursor it
  returns is the cursor \<open>after\<close> it was given. The code breaks it on a cache hit that
  collects nothing: with event 5 cached and still inside the lag window, \<open>Load\<close> with
  \<open>after = 4\<close> returns no events, no error and the next cursor 0, from \<open>getLastID\<close>
  of the empty slice. (The path through the loader returns \<open>after\<close>, see
  \<open>readThrough_empty_batch_keeps_cursor\<close>.)
\<close>

theorem Load_empty_hit_returns_zero_cursor:
  "Load \<lparr>cache = [ev 5 100], name = ''events'', loader = ld, limit = 10000\<rparr> w 4 10 105
     = Ret (\<lparr>cache = [ev 5 100], name = ''events'', loader = ld, limit = 10000\<rparr>, w, ([], 0, None))"
  by (simp add: cache_eval)

text \<open>
  C3. Through any sequence of \<open>Load\<close> calls that all complete, the cached ids stay
  consecutive: if \<open>cache[i+1].id = cache[i].id + 1\<close> holds for all neighbours before
  (as it does for the empty cache of \<open>newRCache\<close>), it holds after the calls, whatever
  the loader returns.
\<close>

theorem cache_ids_consecutive:
  assumes "\<forall>i. i + 1 < length (cache c) \<longrightarrow> IDInt (cache c ! (i + 1)) = IDInt (cache c ! i) + 1"
    and "run_loads c w calls = Ret (c', w')"
  shows "\<forall>i. i + 1 < length (cache c') \<longrightarrow> IDInt (cache c' ! (i + 1)) = IDInt (cache c' ! i) + 1"
  using assms run_loads_consecutive [of c w calls c' w'] by (simp add: consecutive_iff_nth)

theorem cache_ids_consecutive_witness:
  "run_loads ((newRCache next_two ''events'')\<lparr>limit := 3\<rparr>) () [(0, 0, 0), (2, 0, 0)]
     = Ret ((newRCache next_two ''events'')\<lparr>limit := 3, cache := [ev 2 0, ev 3 0, ev 4 0]\<rparr>, ()) \<and>
   IDInt ([ev 2 0, ev 3 0, ev 4 0] ! 1) = IDInt ([ev 2 0, ev 3 0, ev 4 0] ! 0) + 1 \<and>
   IDInt ([ev 2 0, ev 3 0, ev 4 0] ! 2) = IDInt ([ev 2 0, ev 3 0, ev 4 0] ! 1) + 1"
proof -
  let ?c0 = "(newRCache next_two ''events'')\<lparr>limit := 3\<rparr>"
  let ?c1 = "(newRCache next_two ''events'')\<lparr>limit := 3, cache := [ev 2 0, ev 3 0, ev 4 0]\<rparr>"
  have pre: "\<forall>i. i + 1 < length (cache ?c0) \<longrightarrow> IDInt (cache ?c0 ! (i + 1)) = IDInt (cache ?c0 ! i) + 1"
    by (simp add: newRCache_def)
  have run: "run_loads ?c0 () [(0, 0, 0), (2, 0, 0)] = Ret (?c1, ())"
    by (simp add: cache_eval next_two_def)
  have post: "\<forall>i. i + 1 < length (cache ?c1) \<longrightarrow> IDInt (cache ?c1 ! (i + 1)) = IDInt (cache ?c1 ! i) + 1"
    by (rule cache_ids_consecutive [OF pre run])
  from post [rule_format, of 0] post [rule_format, of 1] run show ?thesis by simp
qed

text \<open>
  C4. On read-through (the cache missed and the loader returned): an error of the
  loader comes back as it is; a non-empty batch whose ids are not consecutive makes
  \<open>Load\<close> fail with \<open>ErrConsecEvent\<close>; a non-empty batch that passes this check but
  whose reported next cursor is not the id of its last event makes \<open>Load\<close> fail with
  \<open>ErrNextCursorMismatch\<close>, wrapped. In each case \<open>Load\<close> returns no events and the
  cache as it was.
\<close>

theorem Load_rejects_invalid_batch:
  assumes miss: "maybeHit c (a + 1) lag now = Ret (r0, False)"
    and ld: "loader c w a lag = Ret (w', (res, next, e))"
  shows "(\<forall>x. e = Some x \<longrightarrow> Load c w a lag now = Ret (c, w', ([], 0, Some x))) \<and>
         (e = None \<and> res \<noteq> [] \<and> \<not> consecutive res \<longrightarrow>
            Load c w a lag now = Ret (c, w', ([], 0, Some ErrConsecEvent))) \<and>
         (e = None \<and> res \<noteq> [] \<and> consecutive res \<and> next \<noteq> IDInt (last res) \<longrightarrow>
            Load c w a lag now = Ret (c, w', ([], 0, Some (Wrap ErrNextCursorMismatch []))))"
proof -
  have m: "maybeHitUnsafe c (a + 1) lag now = Ret (r0, False)"
    using miss by (simp add: maybeHit_def)
  have l: "Load c w a lag now = readThrough c w a lag now"
    using miss by (simp add: Load_def)
  have 1: "Load c w a lag now = Ret (c, w', ([], 0, Some x))" if "e = Some x" for x
    using that m ld l by (simp add: readThrough_def)
  have 2: "Load c w a lag now =
     (if \<not> consecutive res then Ret (c, w', ([], 0, Some ErrConsecEvent))
      else if next \<noteq> IDInt (last res) then Ret (c, w', ([], 0, Some (Wrap ErrNextCursorMismatch [])))
      else Ret (maybeTrimUnsafe (maybeUpdateUnsafe c res), w', (res, next, None)))"
    if en: "e = None" and rne: "res \<noteq> []"
  proof -
    have ld': "loader c w a lag = Ret (w', (res, next, None))"
      using ld en by simp
    show ?thesis
      using readThrough_checks [OF m ld' rne] l by simp
  qed
  from 1 2 show ?thesis by simp
qed

theorem Load_rejects_invalid_batch_witness:
  "Load (newRCache (fixed_loader ([], 0, Some (ErrNew ''bad connection''))) ''events'') () 0 0 0
     = Ret (newRCache (fixed_loader ([], 0, Some (ErrNew ''bad connection''))) ''events'', (),
            ([], 0, Some (ErrNew ''bad connection''))) \<and>
   \<not> consecutive [ev 1 0, ev 3 0] \<and>
   Load (newRCache (fixed_loader ([ev 1 0, ev 3 0], 3, None)) ''events'') () 0 0 0
     = Ret (newRCache (fixed_loader ([ev 1 0, ev 3 0], 3, None)) ''events'', (),
            ([], 0, Some ErrConsecEvent)) \<and>
   consecutive [ev 1 0, ev 2 0] \<and> 7 \<noteq> IDInt (last [ev 1 0, ev 2 0]) \<and>
   Load (newRCache (fixed_loader ([ev 1 0, ev 2 0], 7, None)) ''events'') () 0 0 0
     = Ret (newRCache (fixed_loader ([ev 1 0, ev 2 0], 7, None)) ''events'', (),
            ([], 0, Some (Wrap ErrNextCursorMismatch [])))"
proof -
  let ?c0 = "newRCache (fixed_loader ([], 0, Some (ErrNew ''bad connection''))) ''events''"
  let ?c1 = "newRCache (fixed_loader ([ev 1 0, ev 3 0], 3, None)) ''events''"
  let ?c2 = "newRCache (fixed_loader ([ev 1 0, ev 2 0], 7, None)) ''events''"
  have m0: "maybeHit ?c0 (0 + 1) 0 0 = Ret ([], False)"
    and m1: "maybeHit ?c1 (0 + 1) 0 0 = Ret ([], False)"
    and m2: "maybeHit ?c2 (0 + 1) 0 0 = Ret ([], False)"
    by (simp_all add: cache_eval)
  have l0: "loader ?c0 () 0 0 = Ret ((), ([], 0, Some (ErrNew ''bad connection'')))"
    and l1: "loader ?c1 () 0 0 = Ret ((), ([ev 1 0, ev 3 0], 3, None))"
    and l2: "loader ?c2 () 0 0 = Ret ((), ([ev 1 0, ev 2 0], 7, None))"
    by (simp_all add: newRCache_def fixed_loader_def)
  have n1: "\<not> consecutive [ev 1 0, ev 3 0]"
    and n2: "consecutive [ev 1 0, ev 2 0] \<and> 7 \<noteq> IDInt (last [ev 1 0, ev 2 0])"
    by (simp_all add: ev_def)
  from Load_rejects_invalid_batch [OF m0 l0]
  have r0: "Load ?c0 () 0 0 0 = Ret (?c0, (), ([], 0, Some (ErrNew ''bad connection'')))" by blast
  from Load_rejects_invalid_batch [OF m1 l1] n1
  have r1: "Load ?c1 () 0 0 0 = Ret (?c1, (), ([], 0, Some ErrConsecEvent))" by blast
  from Load_rejects_invalid_batch [OF m2 l2] n2
  have r2: "Load ?c2 () 0 0 0 = Ret (?c2, (), ([], 0, Some (Wrap ErrNextCursorMismatch [])))" by blast
  from n1 n2 r0 r1 r2 show ?thesis by blast
qed




text \<open>
  C9. With no cached events, \<open>Load\<close> with \<open>after = -1\<close> is a hit: head and tail are
  both 0, the range check passes for \<open>from = 0\<close>, and the call returns no events, next
  cursor 0 and no error. The result is the same for every loader and the world comes
  back untouched: the loader is not invoked.
\<close>

theorem Load_empty_cache_minus_one:
  "headUnsafe (c\<lparr>cache := []\<rparr>) = 0 \<and> tailUnsafe (c\<lparr>cache := []\<rparr>) = 0 \<and>
   Load (c\<lparr>cache := [], loader := ld\<rparr>) w (- 1) lag now
     = Ret (c\<lparr>cache := [], loader := ld\<rparr>, w, ([], 0, None))"
  by (simp add: Load_def maybeHit_def maybeHitUnsafe_def headUnsafe_def tailUnsafe_def
      emptyUnsafe_def lenUnsafe_def getLastID_def hit_loop.simps)

section \<open>Lemmas about integers as text\<close>

lemma is_digit_digit_char: "d < 10 \<Longrightarrow> is_digit (digit_char d)"
  by (simp add: is_digit_def digit_char_def)

lemma digit_val_digit_char: "d < 10 \<Longrightarrow> digit_val (digit_char d) = d"
  by (simp add: digit_val_def digit_char_def)

lemma ParseUint_loop_snoc:
  "ParseUint_loop n (xs @ [c]) =
     (case ParseUint_loop n xs of (m, None) \<Rightarrow> ParseUint_loop m [c] | (m, Some e) \<Rightarrow> (m, Some e))"
  by (induction xs arbitrary: n) (auto simp: Let_def)

lemma ParseUint_loop_dec_nat:
  "n \<le> maxUint64 \<Longrightarrow> ParseUint_loop 0 (dec_nat n) = (n, None)"
proof (induction n rule: dec_nat.induct)
  case (1 n)
  show ?case
  proof (cases "n < 10")
    case True
    then show ?thesis
      using 1(2)
      by (simp add: dec_nat.simps [of n] is_digit_digit_char digit_val_digit_char maxUint64_def)
  next
    case False
    have d: "n div 10 \<le> maxUint64" using 1(2) by simp
    have m: "n mod 10 < 10" by simp
    have lt: "\<not> maxUint64 div 10 + 1 \<le> n div 10"
      using 1(2) by (simp add: maxUint64_def)
    have "ParseUint_loop 0 (dec_nat n) = ParseUint_loop (n div 10) [digit_char (n mod 10)]"
      using False 1(1) [OF False d]
      by (simp add: dec_nat.simps [of n] ParseUint_loop_snoc)
    also have "\<dots> = (n, None)"
      using 1(2) lt
      by (simp add: is_digit_digit_char [OF m] digit_val_digit_char [OF m] Let_def)
    finally show ?thesis .
  qed
qed

lemma dec_nat_digits: "c \<in> set (dec_nat n) \<Longrightarrow> is_digit c"
proof (induction n rule: dec_nat.induct)
  case (1 n)
  show ?case
  proof (cases "n < 10")
    case True
    with 1(2) show ?thesis by (simp add: dec_nat.simps [of n] is_digit_digit_char)
  next
    case False
    with 1 show ?thesis
      by (auto simp: dec_nat.simps [of n] is_digit_digit_char)
  qed
qed

lemma dec_nat_nonempty: "dec_nat n \<noteq> []"
  by (simp add: dec_nat.simps [of n])

lemma hd_dec_nat_digit: "is_digit (hd (dec_nat n))"
  using dec_nat_digits [of "hd (dec_nat n)" n] dec_nat_nonempty [of n] by simp

lemma not_digit_signs: "\<not> is_digit CHR ''-''" "\<not> is_digit CHR ''+''" "\<not> is_digit CHR ''|''"
  by (simp_all add: is_digit_def)

lemma ParseUint_dec_nat: "n \<le> maxUint64 \<Longrightarrow> ParseUint (dec_nat n) = (n, None)"
  by (simp add: ParseUint_def dec_nat_nonempty ParseUint_loop_dec_nat)

lemma ParseInt_FormatInt: "ParseInt (FormatInt i) = (i, None)"
proof (cases "sint i < 0")
  case True
  let ?n = "nat (- sint i)"
  have b: "?n \<le> 2 ^ 63" using sint_ge [of i] by simp
  then have u: "?n \<le> maxUint64" by (simp add: maxUint64_def)
  have w: "- (word_of_nat ?n :: int64) = i"
  proof -
    have "(word_of_nat ?n :: int64) = word_of_int (- sint i)"
      using True by (intro of_nat_nat) simp
    then show ?thesis by simp
  qed
  show ?thesis
    using True b w by (simp add: ParseInt_def FormatInt_def ParseUint_dec_nat [OF u])
next
  case False
  let ?n = "nat (sint i)"
  have b: "?n < 2 ^ 63" using sint_lt [of i] False by simp
  then have u: "?n \<le> maxUint64" by (simp add: maxUint64_def)
  have w: "(word_of_nat ?n :: int64) = i"
  proof -
    have "(word_of_nat ?n :: int64) = word_of_int (sint i)"
      using False by (intro of_nat_nat) simp
    then show ?thesis by simp
  qed
  have h: "hd (dec_nat ?n) \<noteq> CHR ''-''" "hd (dec_nat ?n) \<noteq> CHR ''+''"
    using hd_dec_nat_digit [of ?n] not_digit_signs by auto
  show ?thesis
    using False b w h
    by (simp add: ParseInt_def FormatInt_def ParseUint_dec_nat [OF u] dec_nat_nonempty)
qed

lemma Split_no_sep: "sep \<notin> set xs \<Longrightarrow> Split xs sep = [xs]"
  by (induction xs) auto

lemma Split_at_sep: "sep \<notin> set xs \<Longrightarrow> Split (xs @ sep # ys) sep = xs # Split ys sep"
  by (induction xs) auto

lemma FormatInt_no_bar: "CHR ''|'' \<notin> set (FormatInt i)"
  using dec_nat_digits not_digit_signs(3) by (auto simp: FormatInt_def)

lemma Split_String:
  assumes "CHR ''|'' \<notin> set (Key c)"
  shows "Split (String c) CHR ''|'' =
    (if Last c then [Key c, FormatInt (Offset c), ''last''] else [Key c, FormatInt (Offset c)])"
proof (cases "Last c")
  case True
  have "String c = Key c @ CHR ''|'' # (FormatInt (Offset c) @ CHR ''|'' # ''last'')"
    using True by (simp add: String_def)
  then have "Split (String c) CHR ''|'' = Key c # Split (FormatInt (Offset c) @ CHR ''|'' # ''last'') CHR ''|''"
    using Split_at_sep [OF assms] by simp
  also have "Split (FormatInt (Offset c) @ CHR ''|'' # ''last'') CHR ''|'' = FormatInt (Offset c) # Split ''last'' CHR ''|''"
    using Split_at_sep [OF FormatInt_no_bar] by simp
  finally show ?thesis using True by simp
next
  case False
  have "String c = Key c @ CHR ''|'' # FormatInt (Offset c)"
    using False by (simp add: String_def)
  then have "Split (String c) CHR ''|'' = Key c # Split (FormatInt (Offset c)) CHR ''|''"
    using Split_at_sep [OF assms] by simp
  then show ?thesis using False Split_no_sep [OF FormatInt_no_bar] by simp
qed

lemma String_nonempty: "String c \<noteq> []"
  by (simp add: String_def Let_def)

section \<open>Claims about the cursor of the blob stream\<close>

text \<open>
  C10. A cursor whose key has no \<open>|\<close> survives printing and parsing:
  \<open>parseCursor(c.String())\<close> returns \<open>c\<close> itself (key, offset and last flag) and no
  error, for every 64-bit offset.
\<close>

theorem parseCursor_String:
  fixes c :: cursor
  assumes "CHR ''|'' \<notin> set (Key c)"
  shows "parseCursor (String c) = Inr c"
  using Split_String [OF assms]
  by (simp add: parseCursor_def String_nonempty ParseInt_FormatInt)

theorem parseCursor_String_witness:
  "CHR ''|'' \<notin> set ''a/b'' \<and>
   String \<lparr>Key = ''a/b'', Offset = - 1, Last = True\<rparr> = ''a/b|-1|last'' \<and>
   parseCursor ''a/b|-1|last'' = Inr \<lparr>Key = ''a/b'', Offset = - 1, Last = True\<rparr>"
proof -
  have k: "CHR ''|'' \<notin> set (Key \<lparr>Key = ''a/b'', Offset = - 1, Last = True\<rparr>)" by simp
  have s: "String \<lparr>Key = ''a/b'', Offset = - 1, Last = True\<rparr> = ''a/b|-1|last''"
    by code_simp
  from parseCursor_String [OF k] s k show ?thesis by simp
qed

section \<open>Claims about the in-memory notifier\<close>

lemma select_send_default_Done:
  "\<exists>h1. select_send_default h l = Done h1 \<and> length h1 = length h"
  by (simp add: select_send_default_def send_def split: step.splits option.splits)

lemma Notify_loop_Done: "\<exists>h'. Notify_loop h ls = Done h' \<and> length h' = length h"
proof (induction ls arbitrary: h)
  case Nil
  then show ?case by simp
next
  case (Cons l ls)
  obtain h1 where s: "select_send_default h l = Done h1" and l1: "length h1 = length h"
    using select_send_default_Done [of h l] by blast
  from Cons [of h1] s l1 show ?case by simp
qed

text \<open>A full channel without a waiting receiver: the plain send blocks, the select does not.\<close>

lemma full_channel_send_blocks:
  "send [\<lparr>cap = 1, queued = 1, receivers = 0\<rparr>] 0 = Blocks \<and>
   select_send_default [\<lparr>cap = 1, queued = 1, receivers = 0\<rparr>] 0
     = Done [\<lparr>cap = 1, queued = 1, receivers = 0\<rparr>]"
  by (simp add: send_def select_send_default_def chan_send_def)

text \<open>
  C7. \<open>Notify\<close> runs to its end on every heap of channels and every list of
  listeners, full buffers included: each send is the \<open>select\<close> with a default. It
  leaves the list of listeners empty and makes no channel. \<open>C()\<close> makes one new
  channel of capacity 1 with an empty buffer, at an index no channel had, appends it to
  the listeners and returns it.
\<close>

theorem Notify_never_blocks:
  "(\<exists>h'. Notify h n = Done (h', n\<lparr>listeners := []\<rparr>) \<and> length h' = length h) \<and>
   C h n = (h @ [\<lparr>cap = 1, queued = 0, receivers = 0\<rparr>],
            n\<lparr>listeners := listeners n @ [length h]\<rparr>, length h)"
  using Notify_loop_Done [of h "listeners n"]
  by (auto simp: Notify_def C_def Let_def)

section \<open>Claims about the insert path\<close>

text \<open>When the SQL insert fails, the function returned with the error is \<open>noopFunc\<close>.\<close>

lemma InsertWithMetadata_insert_error:
  assumes "\<not> isNoop foreignID typ" and "insertEvent tx foreignID typ md = (tx', Some e)"
  shows "InsertWithMetadata insertEvent tx foreignID typ md = (tx', noopFunc, Some e)"
  using assms by (simp add: InsertWithMetadata_def)

text \<open>
  C6. The claim: \<open>InsertWithMetadata\<close> refuses the sentinel input, and with every
  error the function it returns is a non-nil no-op. The code refuses the sentinel input
  without touching the transaction, but the function it returns there is \<open>nil\<close>, and
  calling \<open>nil\<close> panics.
\<close>

theorem InsertWithMetadata_noop_returns_nil:
  "InsertWithMetadata insertEvent tx ''0'' 0 md
     = (tx, nil_NotifyFunc, Some (ErrNew ''inserting invalid noop event'')) \<and>
   call_NotifyFunc nil_NotifyFunc notify n = Panic"
  by (simp add: InsertWithMetadata_def isNoop_def call_NotifyFunc_def)

section \<open>Claims about the stream client\<close>

lemma foldl_apply_StreamOption:
  "after (foldl apply_StreamOption s opts) = after s \<and>
   prev (foldl apply_StreamOption s opts) = prev s \<and>
   buf (foldl apply_StreamOption s opts) = buf s \<and>
   StreamFromHead (foldl apply_StreamOption s opts)
     = (StreamFromHead s \<or> WithStreamFromHead \<in> set opts)"
proof (induction opts arbitrary: s)
  case Nil
  then show ?case by simp
next
  case (Cons x opts)
  show ?case
    using Cons [of "apply_StreamOption s x"]
    by (cases x) (auto simp: apply_StreamOption_def)
qed

lemma Stream_fields:
  "after (Stream t a opts) = a" "prev (Stream t a opts) = 0" "buf (Stream t a opts) = []"
  "StreamFromHead (Stream t a opts) = (StreamFromHead t \<or> WithStreamFromHead \<in> set opts)"
  using foldl_apply_StreamOption
    [of "\<lparr>StreamFromHead = StreamFromHead t, Lag = Lag t, backoff = backoff t,
          after = a, prev = 0, buf = [], sloader = currentLoader t\<rparr>" opts]
  by (simp_all add: Stream_def)

text \<open>On success the cursor of the client is the id of the event it returns.\<close>

lemma Recv_cursor_is_returned_id:
  assumes "Recv fuel env w s = Some (Ret (w', s', Inr e))"
  shows "prev s' = IDInt e"
  using assms
  by (auto simp: Recv_def Let_def split: option.splits prod.splits exec.splits)

text \<open>
  C2. The claim: the ids a client receives are strictly increasing. The code breaks it
  behind the cache. The table has events 1 to 4 and, committed later, event 5; a client
  without lag has filled the cache with all five. A client with lag 10 starts from the
  empty cursor at a time when event 5 is inside the lag window: its \<open>Recv\<close> calls
  return 1, 2, 3, 4; the next call hits the cache, gets no events and the next cursor 0,
  waits, loads from cursor 0 and returns event 1 again.
\<close>

theorem Recv_redelivers_after_empty_hit:
  "cached demo_world_warm = [ev 1 0, ev 2 0, ev 3 0, ev 4 0, ev 5 100] \<and>
   map (map_sum id IDInt)
     (snd (snd (recv_n 5 2 demo_env demo_world_warm (Stream demo_table [] [WithStreamLag 10]))))
     = [Inr 1, Inr 2, Inr 3, Inr 4, Inr 1]"
  by code_simp

text \<open>
  C8, as stated: a client whose cursor does not parse fails its first \<open>Recv\<close> with
  \<open>ErrInvalidIntID\<close>. \<open>Recv\<close> looks at the context first: with a cancelled context
  the first call returns the context's error, and the cursor \<open>abc\<close> is never parsed.
\<close>

theorem Recv_cancelled_context_first:
  "snd (ParseInt ''abc'') \<noteq> None \<and>
   Recv 1 (demo_env\<lparr>ctx_Err := (\<lambda>w. Some (ErrNew ''context canceled''))\<rparr>) demo_world
       (Stream demo_table ''abc'' [])
     = Some (Ret (demo_world, Stream demo_table ''abc'' [], Inl (ErrNew ''context canceled'')))"
  by (simp add: Recv_def ParseInt_def ParseUint_def is_digit_def)

text \<open>
  C8, amended. For a client of a context that is not cancelled, made by \<open>Stream\<close>
  without the from-head option: a non-empty cursor that \<open>ParseInt\<close> rejects makes the
  first \<open>Recv\<close> return \<open>ErrInvalidIntID\<close>, before any loader call; with the empty
  cursor the initialisation raises no error and leaves the client as it was made, with
  the internal cursor 0.
\<close>

theorem Recv_invalid_cursor:
  assumes "ctx_Err env w = None" and "\<not> StreamFromHead t" and "WithStreamFromHead \<notin> set opts"
  shows "(a \<noteq> [] \<and> snd (ParseInt a) \<noteq> None \<longrightarrow>
            Recv fuel env w (Stream t a opts)
              = Some (Ret (w, (Stream t a opts)\<lparr>prev := fst (ParseInt a)\<rparr>, Inl ErrInvalidIntID))) \<and>
         init_cursor env w (Stream t [] opts) = (w, Stream t [] opts, None) \<and>
         prev (Stream t [] opts) = 0"
proof -
  have h: "\<not> StreamFromHead (Stream t a opts)" "\<not> StreamFromHead (Stream t [] opts)"
    using assms by (simp_all add: Stream_fields)
  have 1: "Recv fuel env w (Stream t a opts)
      = Some (Ret (w, (Stream t a opts)\<lparr>prev := fst (ParseInt a)\<rparr>, Inl ErrInvalidIntID))"
    if ne: "a \<noteq> []" and bad: "snd (ParseInt a) \<noteq> None"
  proof -
    obtain i e where p: "ParseInt a = (i, Some e)"
      using bad by (cases "ParseInt a") auto
    have "init_cursor env w (Stream t a opts)
        = (w, (Stream t a opts)\<lparr>prev := i\<rparr>, Some ErrInvalidIntID)"
      using h(1) ne p by (simp add: init_cursor_def Stream_fields)
    then show ?thesis
      using assms(1) p by (simp add: Recv_def)
  qed
  have 2: "init_cursor env w (Stream t [] opts) = (w, Stream t [] opts, None)"
    using h(2) by (simp add: init_cursor_def Stream_fields)
  from 1 2 show ?thesis by (simp add: Stream_fields)
qed

theorem Recv_invalid_cursor_witness:
  "ParseInt ''abc'' = (0, Some ErrSyntax) \<and>
   Recv 1 demo_env demo_world (Stream demo_table ''abc'' [])
     = Some (Ret (demo_world, (Stream demo_table ''abc'' [])\<lparr>prev := 0\<rparr>, Inl ErrInvalidIntID)) \<and>
   init_cursor demo_env demo_world (Stream demo_table [] []) = (demo_world, Stream demo_table [] [], None) \<and>
   prev (Stream demo_table [] []) = 0"
proof -
  have p: "ParseInt ''abc'' = (0, Some ErrSyntax)"
    by (simp add: ParseInt_def ParseUint_def is_digit_def)
  have c: "ctx_Err demo_env demo_world = None" by (simp add: demo_env_def)
  have t: "\<not> StreamFromHead demo_table" by (simp add: demo_table_def)
  have o: "WithStreamFromHead \<notin> set []" by simp
  from Recv_invalid_cursor [OF c t o, of "''abc''" 1] p show ?thesis by simp
qed

end
